theory Spec2Isabelle
  imports Main "HOL-Library.Word"
begin

section \<open>The machine: addresses, bytes, a read-only store and a comparison log\<close>

text \<open>
  \<^verbatim>\<open>size_t\<close> and pointers are words of one width \<open>'a\<close>, left open (32 on Win32, 64 on
  Win64): \<open>+\<close> and \<open>-\<close> wrap, \<open><\<close> and \<open>\<le>\<close> compare unsigned. A \<^verbatim>\<open>char\<close> is a byte.
  The store maps the address of every byte of a live object to its content; an address
  outside its domain cannot be read.
\<close>

type_synonym byte = "8 word"

type_synonym 'p store = "'p \<Rightarrow> byte option"

text \<open>One call of \<^verbatim>\<open>memcmp(s1, s2, k)\<close>, as its three arguments.\<close>

type_synonym 'p cmp = "'p \<times> 'p \<times> 'p"

text \<open>
  The state a call runs in: the store, and a log of the comparisons made so far, oldest
  first. The log is an observer's record, not memory of the program. Whatever else a
  caller's state holds (an allocator, other globals) is the record's extension.
\<close>

record 'p machine =
  heap :: "'p store"
  calls :: "'p cmp list"

text \<open>
  A call either returns a value or leaves defined behaviour by reading a byte that is
  not there.
\<close>

datatype 'r outcome = Fault | Done 'r

abbreviation NULL :: "'a :: len word" where
  "NULL \<equiv> 0"

text \<open>No object lives at the null address.\<close>

definition load :: "'a :: len word store \<Rightarrow> 'a word \<Rightarrow> byte option" where
  "load hp p = (if p = NULL then None else hp p)"

text \<open>The \<open>k\<close> bytes at \<open>p, p + 1, ...\<close>, or \<open>None\<close> when one of them cannot be read.\<close>

fun bytes_at :: "'a :: len word store \<Rightarrow> 'a word \<Rightarrow> nat \<Rightarrow> byte list option" where
  "bytes_at hp p 0 = Some []"
| "bytes_at hp p (Suc k) =
     (case load hp p of
        None \<Rightarrow> None
      | Some b \<Rightarrow> (case bytes_at hp (p + 1) k of None \<Rightarrow> None | Some bs \<Rightarrow> Some (b # bs)))"

text \<open>
  The sign of the first differing pair of bytes, read as \<^verbatim>\<open>unsigned char\<close>; 0 when there
  is none.
\<close>

fun cmp_bytes :: "byte list \<Rightarrow> byte list \<Rightarrow> int" where
  "cmp_bytes (x # xs) (y # ys) =
     (if x = y then cmp_bytes xs ys else if x < y then - 1 else 1)"
| "cmp_bytes xs ys = 0"

text \<open>
  Modelled from the spec: \<^verbatim>\<open>memcmp\<close>, the C library's comparison that \<^verbatim>\<open>memmem\<close> calls and
  this repository does not define ("a byte-equality comparison primitive"; "compare the
  \<^verbatim>\<open>needle_len\<close> bytes starting at \<^verbatim>\<open>i\<close> against the needle for exact equality"). It reads
  the first \<open>k\<close> bytes of both objects, so all of them must be readable, and the call is
  entered in the log.
\<close>

definition memcmp ::
  "('a :: len word, 'z) machine_scheme \<Rightarrow> 'a word \<Rightarrow> 'a word \<Rightarrow> 'a word
     \<Rightarrow> int outcome \<times> ('a word, 'z) machine_scheme" where
  "memcmp m s1 s2 k =
     (let m' = m\<lparr>calls := calls m @ [(s1, s2, k)]\<rparr> in
      case bytes_at (heap m) s1 (unat k) of
        None \<Rightarrow> (Fault, m')
      | Some xs \<Rightarrow>
          (case bytes_at (heap m) s2 (unat k) of
             None \<Rightarrow> (Fault, m')
           | Some ys \<Rightarrow> (Done (cmp_bytes xs ys), m')))"

section \<open>memmem\<close>

text \<open>
  The loop of \<^verbatim>\<open>memmem\<close>, from the value \<open>i\<close> of its counter:
  \<^verbatim>\<open>
  for (i = 0; i <= haystack_len - needle_len; i++) {
      if (memcmp(h + i, n, needle_len) == 0)
          return (void *)(h + i);
  }
  return NULL;
  \<close>
  The counter and the bound are \<^verbatim>\<open>size_t\<close>, so the subtraction and the increment wrap;
  a run that never leaves the loop is \<open>None\<close>.
\<close>

partial_function (option) scan ::
  "('a :: len word, 'z) machine_scheme \<Rightarrow> 'a word \<Rightarrow> 'a word \<Rightarrow> 'a word \<Rightarrow> 'a word \<Rightarrow> 'a word
     \<Rightarrow> ('a word outcome \<times> ('a word, 'z) machine_scheme) option" where
  "scan m h haystack_len n needle_len i =
     (if i \<le> haystack_len - needle_len then
        (case memcmp m (h + i) n needle_len of
           (Fault, m') \<Rightarrow> Some (Fault, m')
         | (Done r, m') \<Rightarrow>
             if r = 0 then Some (Done (h + i), m')
             else scan m' h haystack_len n needle_len (i + 1))
      else Some (Done NULL, m))"

text \<open>
  \<^verbatim>\<open>
  void *memmem(const void *haystack, size_t haystack_len,
               const void *needle, size_t needle_len)
  {
      const char *h = haystack;
      const char *n = needle;
      size_t i;
      if (needle_len == 0)
          return (void *)haystack;
      if (haystack_len < needle_len)
          return NULL;
      for (...) ...
  }
  \<close>
\<close>

definition memmem ::
  "('a :: len word, 'z) machine_scheme \<Rightarrow> 'a word \<Rightarrow> 'a word \<Rightarrow> 'a word \<Rightarrow> 'a word
     \<Rightarrow> ('a word outcome \<times> ('a word, 'z) machine_scheme) option" where
  "memmem m haystack haystack_len needle needle_len =
     (let h = haystack; n = needle in
      if needle_len = 0 then Some (Done haystack, m)
      else if haystack_len < needle_len then Some (Done NULL, m)
      else scan m h haystack_len n needle_len 0)"

section \<open>Vocabulary of the properties\<close>

text \<open>
  The byte sequence a view (pointer, length) denotes; \<open>None\<close> when the length is not
  accurate, that is, when some byte of the range cannot be read.
\<close>

definition view :: "('a :: len word, 'z) machine_scheme \<Rightarrow> 'a word \<Rightarrow> 'a word \<Rightarrow> byte list option" where
  "view m p len = bytes_at (heap m) p (unat len)"

text \<open>The needle \<open>N\<close> lies in the haystack \<open>H\<close> at offset \<open>i\<close>.\<close>

definition occurs_at :: "byte list \<Rightarrow> byte list \<Rightarrow> nat \<Rightarrow> bool" where
  "occurs_at H N i \<longleftrightarrow> i + length N \<le> length H \<and> take (length N) (drop i H) = N"

text \<open>
  The needle is not empty and lies at no offset from 0 to \<open>length H - length N\<close> (no
  offset at all when the needle is the longer one).
\<close>

definition no_occurrence :: "byte list \<Rightarrow> byte list \<Rightarrow> bool" where
  "no_occurrence H N \<longleftrightarrow>
     N \<noteq> [] \<and> list_all (\<lambda>i. \<not> occurs_at H N i) [0..<Suc (length H - length N)]"

text \<open>The comparison the loop makes at offset \<open>j\<close>: \<^verbatim>\<open>memcmp(h + j, n, needle_len)\<close>.\<close>

definition probe :: "'a :: len word \<Rightarrow> 'a word \<Rightarrow> 'a word \<Rightarrow> nat \<Rightarrow> 'a word cmp" where
  "probe h n needle_len j = (h + of_nat j, n, needle_len)"

text \<open>
  A 64-bit machine for the examples: the haystack \<^verbatim>\<open>"xabab"\<close> at address \<open>0x1000\<close>, the
  needle \<^verbatim>\<open>"ab"\<close> at \<open>0x2000\<close>, nothing else readable, no comparison made yet.
\<close>

definition demo :: "64 word machine" where
  "demo = \<lparr>heap = [0x1000 \<mapsto> 120, 0x1001 \<mapsto> 97, 0x1002 \<mapsto> 98, 0x1003 \<mapsto> 97, 0x1004 \<mapsto> 98,
                    0x2000 \<mapsto> 97, 0x2001 \<mapsto> 98],
           calls = []\<rparr>"

text \<open>
  A second machine: as \<open>demo\<close>, with one comparison already in the log and one more
  readable byte elsewhere. The two views hold the same bytes as in \<open>demo\<close>.
\<close>

definition demo2 :: "64 word machine" where
  "demo2 = demo\<lparr>heap := (heap demo)(0x3000 \<mapsto> 7), calls := [(0x1000, 0x2000, 2)]\<rparr>"

text \<open>A 64-bit machine with no readable byte at all.\<close>

definition blank :: "64 word machine" where
  "blank = \<lparr>heap = Map.empty, calls = []\<rparr>"

section \<open>Bytes and comparisons\<close>

lemma cmp_bytes_eq: "length xs = length ys \<Longrightarrow> cmp_bytes xs ys = 0 \<longleftrightarrow> xs = ys"
  by (induction xs ys rule: cmp_bytes.induct) auto

lemma bytes_at_length: "bytes_at hp p k = Some bs \<Longrightarrow> length bs = k"
  by (induction k arbitrary: p bs) (auto split: option.splits)

lemma bytes_at_split:
  "bytes_at hp p (a + b) = Some bs \<Longrightarrow>
   bytes_at hp p a = Some (take a bs) \<and> bytes_at hp (p + of_nat a) b = Some (drop a bs)"
proof (induction a arbitrary: p bs)
  case 0
  then show ?case by simp
next
  case (Suc a)
  from Suc.prems obtain x xs where
    x: "load hp p = Some x" and xs: "bytes_at hp (p + 1) (a + b) = Some xs" and bs: "bs = x # xs"
    by (auto split: option.splits)
  have "p + 1 + of_nat a = p + of_nat (Suc a)" by simp
  with Suc.IH [OF xs] show ?case
    by (simp add: x bs del: of_nat_Suc)
qed

lemma bytes_at_slice:
  assumes "bytes_at hp p (length H) = Some H" and "j + k \<le> length H"
  shows "bytes_at hp (p + of_nat j) k = Some (take k (drop j H))"
proof -
  have "length H = j + (k + (length H - j - k))" using assms(2) by simp
  with assms(1) have "bytes_at hp p (j + (k + (length H - j - k))) = Some H" by simp
  from bytes_at_split [OF this]
  have "bytes_at hp (p + of_nat j) (k + (length H - j - k)) = Some (drop j H)" by simp
  from bytes_at_split [OF this] show ?thesis by simp
qed

lemma bytes_at_nonnull: "bytes_at hp p (Suc k) = Some bs \<Longrightarrow> p \<noteq> NULL"
  by (auto simp: load_def split: option.splits if_splits)

lemma memcmp_calls: "\<exists>x. memcmp m s1 s2 k = (x, m\<lparr>calls := calls m @ [(s1, s2, k)]\<rparr>)"
  by (simp add: memcmp_def Let_def split: option.splits)

lemma memcmp_valid:
  assumes "bytes_at (heap m) s1 (unat k) = Some xs" and "bytes_at (heap m) s2 (unat k) = Some ys"
  shows "memcmp m s1 s2 k = (Done (cmp_bytes xs ys), m\<lparr>calls := calls m @ [(s1, s2, k)]\<rparr>)"
  using assms by (simp add: memcmp_def Let_def)

lemma scan_total:
  fixes hl nl i :: "'a :: len word"
  assumes "unat (hl - nl) + 1 < 2 ^ LENGTH('a)"
  shows "\<exists>r cs. scan m h hl n nl i = Some (r, m\<lparr>calls := calls m @ cs\<rparr>)
           \<and> length cs \<le> unat (hl - nl) + 1 - unat i"
proof (induction "unat (hl - nl) + 1 - unat i" arbitrary: i m)
  case 0
  then have "\<not> i \<le> hl - nl" by (simp add: word_le_nat_alt)
  then have "scan m h hl n nl i = Some (Done NULL, m\<lparr>calls := calls m @ []\<rparr>)"
    by (subst scan.simps) simp
  then show ?case by (intro exI [of _ "Done NULL"] exI [of _ "[]"]) simp
next
  case (Suc d)
  then have le: "i \<le> hl - nl" by (simp add: word_le_nat_alt)
  then have ui: "unat i \<le> unat (hl - nl)" by (simp add: word_le_nat_alt)
  with assms have "unat i + 1 < 2 ^ LENGTH('a)" by simp
  then have u1: "unat (i + 1) = unat i + 1" by (simp add: unat_add_lem [THEN iffD1])
  let ?c = "(h + i, n, nl)"
  let ?m' = "m\<lparr>calls := calls m @ [?c]\<rparr>"
  obtain x where x: "memcmp m (h + i) n nl = (x, ?m')"
    using memcmp_calls by blast
  show ?case
  proof (cases "\<exists>r. x = Done r \<and> r \<noteq> 0")
    case False
    then have "scan m h hl n nl i = Some (if x = Fault then Fault else Done (h + i), m\<lparr>calls := calls m @ [?c]\<rparr>)"
      using le x by (subst scan.simps) (auto split: outcome.splits)
    moreover have "length [?c] \<le> unat (hl - nl) + 1 - unat i" using ui by simp
    ultimately show ?thesis by blast
  next
    case True
    then have s: "scan m h hl n nl i = scan ?m' h hl n nl (i + 1)"
      using le x by (subst scan.simps) auto
    have "d = unat (hl - nl) + 1 - unat (i + 1)" using Suc(2) u1 by simp
    from Suc(1) [OF this, of ?m'] obtain r cs where
      r: "scan ?m' h hl n nl (i + 1) = Some (r, ?m'\<lparr>calls := calls ?m' @ cs\<rparr>)"
      and len: "length cs \<le> unat (hl - nl) + 1 - unat (i + 1)" by blast
    have "scan m h hl n nl i = Some (r, m\<lparr>calls := calls m @ (?c # cs)\<rparr>)"
      using s r by simp
    moreover have "length (?c # cs) \<le> unat (hl - nl) + 1 - unat i"
      using len u1 ui by simp
    ultimately show ?thesis by blast
  qed
qed



lemma memcmp_occurs:
  assumes H: "bytes_at (heap m) h (unat hl) = Some H"
    and N: "bytes_at (heap m) n (unat nl) = Some N"
    and j: "j + length N \<le> length H"
  shows "\<exists>r. memcmp m (h + of_nat j) n nl = (Done r, m\<lparr>calls := calls m @ [probe h n nl j]\<rparr>)
           \<and> (r = 0 \<longleftrightarrow> occurs_at H N j)"
proof -
  have lH: "length H = unat hl" and lN: "length N = unat nl"
    using H N by (auto dest: bytes_at_length)
  have "bytes_at (heap m) h (length H) = Some H" using H lH by simp
  from bytes_at_slice [OF this j]
  have "bytes_at (heap m) (h + of_nat j) (unat nl) = Some (take (length N) (drop j H))"
    by (simp add: lN)
  from memcmp_valid [OF this N]
  have "memcmp m (h + of_nat j) n nl =
          (Done (cmp_bytes (take (length N) (drop j H)) N), m\<lparr>calls := calls m @ [probe h n nl j]\<rparr>)"
    by (simp add: probe_def)
  moreover have "cmp_bytes (take (length N) (drop j H)) N = 0 \<longleftrightarrow> occurs_at H N j"
    using j by (subst cmp_bytes_eq) (auto simp: occurs_at_def)
  ultimately show ?thesis by blast
qed

lemma find_SomeD: "List.find P xs = Some x \<Longrightarrow> x \<in> set xs \<and> P x"
  by (induction xs) (auto split: if_splits)

lemma scan_run:
  fixes hl nl :: "'a :: len word"
  assumes H: "bytes_at (heap m) h (unat hl) = Some H"
    and N: "bytes_at (heap m) n (unat nl) = Some N"
    and nz: "nl \<noteq> 0" and le: "nl \<le> hl"
    and j: "j \<le> Suc (length H - length N)"
  shows "scan m h hl n nl (of_nat j) =
           Some (case List.find (occurs_at H N) [j..<Suc (length H - length N)] of
                   None \<Rightarrow> (Done NULL,
                            m\<lparr>calls := calls m @ map (probe h n nl) [j..<Suc (length H - length N)]\<rparr>)
                 | Some k \<Rightarrow> (Done (h + of_nat k),
                              m\<lparr>calls := calls m @ map (probe h n nl) [j..<Suc k]\<rparr>))"
proof -
  have lH: "length H = unat hl" and lN: "length N = unat nl"
    using H N by (auto dest: bytes_at_length)
  have D: "unat (hl - nl) = length H - length N"
    using le by (simp add: unat_sub lH lN)
  have "0 < unat nl" using nz by (simp add: unat_gt_0)
  then have NH: "length N \<le> length H" "0 < length N" "length H < 2 ^ LENGTH('a)"
    using le lH lN by (auto simp: word_le_nat_alt)
  have unat_j: "unat (of_nat j :: 'a word) = j" if "j \<le> Suc (length H - length N)" for j
  proof -
    have "j < 2 ^ LENGTH('a)" using that NH by arith
    then show ?thesis by (simp add: unat_of_nat)
  qed
  show ?thesis
    using H N j
  proof (induction "Suc (length H - length N) - j" arbitrary: j m)
    case 0
    then have jj: "j = Suc (length H - length N)" by simp
    with unat_j [of j] D have "\<not> (of_nat j :: 'a word) \<le> hl - nl"
      by (simp add: word_le_nat_alt)
    then show ?case
      by (subst scan.simps) (simp add: jj)
  next
    case (Suc d)
    from Suc(2) have jD: "j \<le> length H - length N" by simp
    with unat_j [of j] D have in_loop: "(of_nat j :: 'a word) \<le> hl - nl"
      by (simp add: word_le_nat_alt)
    have jN: "j + length N \<le> length H" using jD NH by arith
    let ?m' = "m\<lparr>calls := calls m @ [probe h n nl j]\<rparr>"
    from memcmp_occurs [OF Suc.prems(1) Suc.prems(2) jN] obtain r where
      r: "memcmp m (h + of_nat j) n nl = (Done r, ?m')" and r0: "r = 0 \<longleftrightarrow> occurs_at H N j"
      by blast
    have upt: "[j..<Suc (length H - length N)] = j # [Suc j..<Suc (length H - length N)]"
      using jD by (simp add: upt_conv_Cons)
    show ?case
    proof (cases "occurs_at H N j")
      case True
      then have "scan m h hl n nl (of_nat j) = Some (Done (h + of_nat j), ?m')"
        using in_loop r r0 by (subst scan.simps) simp
      moreover have "List.find (occurs_at H N) [j..<Suc (length H - length N)] = Some j"
        using True by (subst upt) simp
      moreover have "[j..<Suc j] = [j]" by simp
      ultimately show ?thesis by (simp del: upt_Suc)
    next
      case False
      have step: "scan m h hl n nl (of_nat j) = scan ?m' h hl n nl (of_nat (Suc j))"
        using in_loop r r0 False by (subst scan.simps) (simp add: add.commute)
      have d: "d = Suc (length H - length N) - Suc j" using Suc(2) by simp
      have "bytes_at (heap ?m') h (unat hl) = Some H" "bytes_at (heap ?m') n (unat nl) = Some N"
        using Suc.prems by simp_all
      from Suc(1) [OF d this] jD
      have "scan ?m' h hl n nl (of_nat (Suc j)) =
             Some (case List.find (occurs_at H N) [Suc j..<Suc (length H - length N)] of
                     None \<Rightarrow> (Done NULL,
                              ?m'\<lparr>calls := calls ?m' @ map (probe h n nl) [Suc j..<Suc (length H - length N)]\<rparr>)
                   | Some k \<Rightarrow> (Done (h + of_nat k),
                                ?m'\<lparr>calls := calls ?m' @ map (probe h n nl) [Suc j..<Suc k]\<rparr>))"
        by simp
      moreover have "[j..<Suc k] = j # [Suc j..<Suc k]"
        if "List.find (occurs_at H N) [Suc j..<Suc (length H - length N)] = Some k" for k
      proof -
        from find_SomeD [OF that] have "k \<in> set [Suc j..<Suc (length H - length N)]" by blast
        then have "j < Suc k" by (simp del: upt_Suc)
        then show ?thesis by (rule upt_conv_Cons)
      qed
      ultimately show ?thesis
        using False step by (auto simp: upt simp del: upt_Suc split: option.splits)
    qed
  qed
qed

section \<open>What a call of memmem does\<close>

lemma find_upt_first:
  assumes "k < n" and "P k" and "\<forall>j<k. \<not> P j"
  shows "List.find P [0..<n] = Some k"
  using assms by (auto simp: find_Some_iff intro!: exI [of _ k])

lemma least_occurrence:
  assumes "occurs_at H N i"
  shows "\<exists>k. occurs_at H N k \<and> (\<forall>j<k. \<not> occurs_at H N j)"
  using assms by (metis exists_least_iff)

lemma no_occurrence_iff: "no_occurrence H N \<longleftrightarrow> N \<noteq> [] \<and> (\<forall>i. \<not> occurs_at H N i)"
proof -
  have "i < Suc (length H - length N)" if "occurs_at H N i" for i
    using that by (auto simp: occurs_at_def)
  then show ?thesis
    unfolding no_occurrence_def list_all_iff by (auto simp del: upt_Suc)
qed

lemma occurrence_cases:
  obtains (empty) "N = []"
  | (absent) "no_occurrence H N"
  | (found) k where "N \<noteq> []" and "occurs_at H N k" and "\<forall>j<k. \<not> occurs_at H N j"
  using least_occurrence [of H N] by (auto simp: no_occurrence_iff)

lemma view_length: "view m p len = Some bs \<Longrightarrow> length bs = unat len"
  by (simp add: view_def bytes_at_length)

lemma view_empty_iff: "view m p len = Some bs \<Longrightarrow> bs = [] \<longleftrightarrow> len = 0"
  by (auto dest!: view_length simp: unat_eq_0)

lemma memmem_empty: "memmem m h hl n 0 = Some (Done h, m)"
  by (simp add: memmem_def)

lemma memmem_short: "hl < nl \<Longrightarrow> memmem m h hl n nl = Some (Done NULL, m)"
  by (auto simp: memmem_def)

lemma memmem_scan: "nl \<noteq> 0 \<Longrightarrow> nl \<le> hl \<Longrightarrow> memmem m h hl n nl = scan m h hl n nl 0"
  by (auto simp: memmem_def)

lemma memmem_total:
  "\<exists>r cs. memmem m h hl n nl = Some (r, m\<lparr>calls := calls m @ cs\<rparr>)
     \<and> length cs \<le> (if nl = 0 \<or> hl < nl then 0 else unat hl - unat nl + 1)"
proof (cases "nl = 0 \<or> hl < nl")
  case True
  then have "memmem m h hl n nl = Some (if nl = 0 then Done h else Done NULL, m\<lparr>calls := calls m @ []\<rparr>)"
    by (auto simp: memmem_def)
  with True show ?thesis by (intro exI [of _ "[]"] exI) auto
next
  case False
  then have nz: "nl \<noteq> 0" and le: "nl \<le> hl" by auto
  have "0 < unat nl" using nz by (simp add: unat_gt_0)
  moreover have "unat nl \<le> unat hl" using le by (simp add: word_le_nat_alt)
  moreover have "unat hl < 2 ^ LENGTH('a)" by simp
  moreover have D: "unat (hl - nl) = unat hl - unat nl" using le by (simp add: unat_sub)
  ultimately have "unat (hl - nl) + 1 < 2 ^ LENGTH('a)" by arith
  from scan_total [OF this, of m h n 0] D False show ?thesis
    by (simp add: memmem_scan [OF nz le])
qed

lemma memmem_found:
  assumes H: "view m h hl = Some H" and N: "view m n nl = Some N"
    and ne: "N \<noteq> []" and k: "occurs_at H N k" and first: "\<forall>j<k. \<not> occurs_at H N j"
  shows "memmem m h hl n nl =
           Some (Done (h + of_nat k), m\<lparr>calls := calls m @ map (probe h n nl) [0..<Suc k]\<rparr>)"
proof -
  have lH: "length H = unat hl" and lN: "length N = unat nl"
    using H N by (auto dest: view_length)
  have nz: "nl \<noteq> 0" using ne view_empty_iff [OF N] by simp
  have "k + length N \<le> length H" using k by (simp add: occurs_at_def)
  then have kD: "k < Suc (length H - length N)" and "length N \<le> length H" by arith+
  then have le: "nl \<le> hl" by (simp add: word_le_nat_alt lH lN)
  have "List.find (occurs_at H N) [0..<Suc (length H - length N)] = Some k"
    using kD k first by (rule find_upt_first)
  with scan_run [OF H [unfolded view_def] N [unfolded view_def] nz le, of 0]
  show ?thesis by (simp add: memmem_scan [OF nz le])
qed

lemma memmem_absent:
  assumes H: "view m h hl = Some H" and N: "view m n nl = Some N"
    and no: "no_occurrence H N"
  shows "memmem m h hl n nl =
           Some (Done NULL,
                 m\<lparr>calls := calls m @ (if length H < length N then []
                                         else map (probe h n nl) [0..<Suc (length H - length N)])\<rparr>)"
proof (cases "hl < nl")
  case True
  then have "length H < length N"
    using view_length [OF H] view_length [OF N] by (simp add: word_less_nat_alt)
  with True show ?thesis by (simp add: memmem_short)
next
  case False
  then have le: "nl \<le> hl" by simp
  then have "\<not> length H < length N"
    using view_length [OF H] view_length [OF N] by (simp add: word_le_nat_alt)
  moreover have nz: "nl \<noteq> 0" using no view_empty_iff [OF N] by (simp add: no_occurrence_def)
  moreover have "List.find (occurs_at H N) [0..<Suc (length H - length N)] = None"
    using no by (simp add: no_occurrence_def find_None_iff list_all_iff del: upt_Suc)
  ultimately show ?thesis
    using scan_run [OF H [unfolded view_def] N [unfolded view_def] nz le, of 0]
    by (simp add: memmem_scan [OF nz le])
qed

lemma memmem_done:
  assumes "view m h hl = Some H" and "view m n nl = Some N"
  shows "\<exists>r m'. memmem m h hl n nl = Some (Done r, m')"
proof (cases rule: occurrence_cases [where H = H and N = N])
  case empty
  then have "nl = 0" using view_empty_iff [OF assms(2)] by simp
  then show ?thesis by (simp add: memmem_empty)
next
  case absent
  from memmem_absent [OF assms absent] show ?thesis by blast
next
  case (found k)
  from memmem_found [OF assms found] show ?thesis by blast
qed

lemma occurrence_nonnull:
  assumes H: "view m h hl = Some H" and ne: "N \<noteq> []" and k: "occurs_at H N k"
  shows "h + of_nat k \<noteq> NULL"
proof -
  have "bytes_at (heap m) h (length H) = Some H"
    using H view_length [OF H] by (simp add: view_def)
  moreover have "k + length N \<le> length H" using k by (simp add: occurs_at_def)
  ultimately have "bytes_at (heap m) (h + of_nat k) (length N) = Some (take (length N) (drop k H))"
    by (rule bytes_at_slice)
  moreover obtain l where "length N = Suc l" using ne by (cases N) auto
  ultimately have "bytes_at (heap m) (h + of_nat k) (Suc l) = Some (take (length N) (drop k H))"
    by simp
  then show ?thesis by (rule bytes_at_nonnull)
qed

lemma probe_in_bounds:
  assumes H: "view m h hl = Some H" and N: "view m n nl = Some N"
    and i: "i + length N \<le> length H"
  shows "i + unat nl \<le> unat hl
         \<and> bytes_at (heap m) (h + of_nat i) (unat nl) = Some (take (unat nl) (drop i H))
         \<and> bytes_at (heap m) n (unat nl) = Some N"
proof -
  have lH: "length H = unat hl" and lN: "length N = unat nl"
    using H N by (auto dest: view_length)
  have "bytes_at (heap m) h (length H) = Some H" using H lH by (simp add: view_def)
  from bytes_at_slice [OF this i] i N show ?thesis
    by (simp add: lH lN view_def)
qed

section \<open>Evaluating the examples\<close>

lemma bytes_at_numeral:
  "bytes_at hp p (numeral v) =
     (case load hp p of
        None \<Rightarrow> None
      | Some b \<Rightarrow> (case bytes_at hp (p + 1) (pred_numeral v) of None \<Rightarrow> None | Some bs \<Rightarrow> Some (b # bs)))"
  by (simp add: numeral_eq_Suc)

lemma demo_haystack: "view demo 0x1000 5 = Some [120, 97, 98, 97, 98]"
  by (simp add: view_def demo_def load_def bytes_at_numeral)

lemma demo_needle: "view demo 0x2000 2 = Some [97, 98]"
  by (simp add: view_def demo_def load_def bytes_at_numeral)

lemma demo2_haystack: "view demo2 0x1000 5 = Some [120, 97, 98, 97, 98]"
  by (simp add: view_def demo2_def demo_def load_def bytes_at_numeral)

lemma demo2_needle: "view demo2 0x2000 2 = Some [97, 98]"
  by (simp add: view_def demo2_def demo_def load_def bytes_at_numeral)

lemma demo_run:
  "memmem demo 0x1000 5 0x2000 2 =
     Some (Done 0x1001, demo\<lparr>calls := [(0x1000, 0x2000, 2), (0x1001, 0x2000, 2)]\<rparr>)"
proof -
  have "occurs_at [120, 97, 98, 97, 98 :: byte] [97, 98] 1"
    and "\<forall>j<1. \<not> occurs_at [120, 97, 98, 97, 98 :: byte] [97, 98] j"
    by (simp_all add: occurs_at_def)
  from memmem_found [OF demo_haystack demo_needle _ this] show ?thesis
    by (simp add: probe_def demo_def)
qed

lemma demo2_run:
  "memmem demo2 0x1000 5 0x2000 2 =
     Some (Done 0x1001,
           demo2\<lparr>calls := [(0x1000, 0x2000, 2), (0x1000, 0x2000, 2), (0x1001, 0x2000, 2)]\<rparr>)"
proof -
  have "occurs_at [120, 97, 98, 97, 98 :: byte] [97, 98] 1"
    and "\<forall>j<1. \<not> occurs_at [120, 97, 98, 97, 98 :: byte] [97, 98] j"
    by (simp_all add: occurs_at_def)
  from memmem_found [OF demo2_haystack demo2_needle _ this] show ?thesis
    by (simp add: probe_def demo2_def demo_def)
qed

section \<open>The claims\<close>



text \<open>
  C2. With \<^verbatim>\<open>needle_len == 0\<close>, whatever the haystack and its length (0 included),
  \<^verbatim>\<open>memmem\<close> returns the haystack pointer itself, that is offset 0, and leaves the machine
  as it was: no comparison is made and no byte is read, so the call succeeds even where
  no byte is readable.
\<close>

theorem memmem_empty_needle:
  "memmem m haystack haystack_len needle 0 = Some (Done haystack, m)"
  by (simp add: memmem_def)

text \<open>
  C3. With \<^verbatim>\<open>needle_len > haystack_len\<close>, \<^verbatim>\<open>memmem\<close> returns \<^verbatim>\<open>NULL\<close> and leaves the machine as
  it was: no offset is tried and no comparison is made.
\<close>

theorem memmem_needle_longer:
  assumes "haystack_len < needle_len"
  shows "memmem m haystack haystack_len needle needle_len = Some (Done NULL, m)"
  using assms by (rule memmem_short)

text \<open>An empty haystack and a needle of one byte, on a machine where nothing can be read.\<close>

theorem memmem_needle_longer_witness:
  "(0 :: 64 word) < 1 \<and> memmem blank 0x1000 0 0x2000 1 = Some (Done NULL, blank)"
proof -
  have "(0 :: 64 word) < 1" by simp
  with memmem_needle_longer [of 0 1 blank "0x1000" "0x2000"] show ?thesis by simp
qed

text \<open>
  C4, as stated: \<^verbatim>\<open>memmem\<close> returns \<^verbatim>\<open>NULL\<close> if and only if the needle is not empty and lies
  at no offset of the haystack. This fails for the empty haystack given as the null
  pointer with length 0 and an empty needle: the call returns the haystack pointer, which
  is \<^verbatim>\<open>NULL\<close>, although the needle is empty.
\<close>

theorem memmem_null_iff_counterexample:
  "view blank NULL 0 = Some [] \<and> memmem blank NULL 0 NULL 0 = Some (Done NULL, blank)
   \<and> \<not> no_occurrence [] []"
  by (simp add: view_def memmem_def no_occurrence_def)

text \<open>
  C4, amended. Let the haystack view hold the bytes \<open>H\<close> and the needle view the bytes
  \<open>N\<close>. Then \<^verbatim>\<open>memmem\<close> returns \<^verbatim>\<open>NULL\<close> if and only if either \<open>N\<close> is not empty and lies at no
  offset from 0 to \<open>length H - length N\<close>, or \<open>N\<close> is empty and the haystack pointer itself
  is \<^verbatim>\<open>NULL\<close>.
\<close>

theorem memmem_null_iff:
  assumes "view m h haystack_len = Some H" and "view m n needle_len = Some N"
  shows "(\<exists>m'. memmem m h haystack_len n needle_len = Some (Done NULL, m'))
           \<longleftrightarrow> no_occurrence H N \<or> (N = [] \<and> h = NULL)"
proof (cases rule: occurrence_cases [where H = H and N = N])
  case empty
  then have "needle_len = 0" using view_empty_iff [OF assms(2)] by simp
  with empty show ?thesis by (auto simp: memmem_empty no_occurrence_def)
next
  case absent
  with memmem_absent [OF assms absent] show ?thesis by simp
next
  case (found k)
  from found(1,2) have "\<not> no_occurrence H N" by (auto simp: no_occurrence_iff)
  moreover have "h + of_nat k \<noteq> NULL" using assms(1) found(1,2) by (rule occurrence_nonnull)
  ultimately show ?thesis
    using memmem_found [OF assms found] found(1) by simp
qed

text \<open>
  In \<^verbatim>\<open>"xabab"\<close> the needle \<^verbatim>\<open>"ab"\<close> does occur, and the result is not \<^verbatim>\<open>NULL\<close>.
\<close>

theorem memmem_null_iff_witness:
  "view demo 0x1000 5 = Some [120, 97, 98, 97, 98] \<and> view demo 0x2000 2 = Some [97, 98]
   \<and> \<not> no_occurrence [120, 97, 98, 97, 98] [97, 98]
   \<and> \<not> (\<exists>m'. memmem demo 0x1000 5 0x2000 2 = Some (Done NULL, m'))"
proof -
  have "\<not> no_occurrence [120, 97, 98, 97, 98] [97, 98]"
    by (simp add: no_occurrence_def occurs_at_def)
  with memmem_null_iff [OF demo_haystack demo_needle] demo_haystack demo_needle
  show ?thesis by simp
qed

text \<open>
  C5. Let the haystack view hold the bytes \<open>H\<close> and the needle view the bytes \<open>N\<close>.
  Whenever \<^verbatim>\<open>memmem\<close> returns a pointer \<open>p\<close> other than \<^verbatim>\<open>NULL\<close>, there is an offset \<open>i\<close> with
  \<open>0 \<le> i \<le> length H - length N\<close> such that \<open>p = h + i\<close> and the \<open>length N\<close> bytes of \<open>H\<close> from
  \<open>i\<close> on are the bytes of \<open>N\<close>.
\<close>

theorem memmem_sound:
  assumes "view m h haystack_len = Some H" and "view m n needle_len = Some N"
    and "memmem m h haystack_len n needle_len = Some (Done p, m')" and "p \<noteq> NULL"
  shows "\<exists>i. p = h + of_nat i \<and> length N \<le> length H \<and> i \<le> length H - length N
           \<and> take (length N) (drop i H) = N"
proof (cases rule: occurrence_cases [where H = H and N = N])
  case empty
  then have "needle_len = 0" using view_empty_iff [OF assms(2)] by simp
  with assms(3) have "p = h + of_nat 0" by (simp add: memmem_empty)
  with empty show ?thesis by (intro exI [of _ 0]) simp
next
  case absent
  with memmem_absent [OF assms(1,2) absent] assms(3,4) show ?thesis by simp
next
  case (found k)
  with memmem_found [OF assms(1,2) found] assms(3) have "p = h + of_nat k" by simp
  moreover from found(2) have "length N \<le> length H" "k \<le> length H - length N"
    "take (length N) (drop k H) = N"
    by (auto simp: occurs_at_def)
  ultimately show ?thesis by blast
qed

text \<open>
  The call on \<^verbatim>\<open>"xabab"\<close> and \<^verbatim>\<open>"ab"\<close> returns the address \<open>0x1001\<close>, which is offset 1.
\<close>

theorem memmem_sound_witness:
  "view demo 0x1000 5 = Some [120, 97, 98, 97, 98] \<and> view demo 0x2000 2 = Some [97, 98]
   \<and> memmem demo 0x1000 5 0x2000 2 =
        Some (Done 0x1001, demo\<lparr>calls := [(0x1000, 0x2000, 2), (0x1001, 0x2000, 2)]\<rparr>)
   \<and> (0x1001 :: 64 word) \<noteq> NULL
   \<and> (\<exists>i. (0x1001 :: 64 word) = 0x1000 + of_nat i
          \<and> length [97, 98 :: byte] \<le> length [120, 97, 98, 97, 98 :: byte]
          \<and> i \<le> length [120, 97, 98, 97, 98 :: byte] - length [97, 98 :: byte]
          \<and> take (length [97, 98 :: byte]) (drop i [120, 97, 98, 97, 98 :: byte]) = [97, 98])"
proof -
  have nn: "(0x1001 :: 64 word) \<noteq> NULL" by simp
  from memmem_sound [OF demo_haystack demo_needle demo_run nn] demo_run nn demo_haystack demo_needle
  show ?thesis by blast
qed

text \<open>
  C6. The result is a function of the inputs: two calls with the same pointers and
  lengths, on machines whose haystack views hold the same bytes and whose needle views
  hold the same bytes, return the same pointer after the same comparisons, however the
  machines differ otherwise (in other memory, or in what was called before). A repeated
  call is the case where the second machine is the one the first call left.
\<close>

theorem memmem_deterministic:
  assumes "view m1 h haystack_len = Some H" and "view m1 n needle_len = Some N"
    and "view m2 h haystack_len = Some H" and "view m2 n needle_len = Some N"
  shows "\<exists>r cs. memmem m1 h haystack_len n needle_len = Some (Done r, m1\<lparr>calls := calls m1 @ cs\<rparr>)
               \<and> memmem m2 h haystack_len n needle_len = Some (Done r, m2\<lparr>calls := calls m2 @ cs\<rparr>)"
proof (cases rule: occurrence_cases [where H = H and N = N])
  case empty
  then have "needle_len = 0" using view_empty_iff [OF assms(2)] by simp
  then have "memmem m1 h haystack_len n needle_len = Some (Done h, m1\<lparr>calls := calls m1 @ []\<rparr>)"
    "memmem m2 h haystack_len n needle_len = Some (Done h, m2\<lparr>calls := calls m2 @ []\<rparr>)"
    by (simp_all add: memmem_empty)
  then show ?thesis by blast
next
  case absent
  from memmem_absent [OF assms(1,2) absent] memmem_absent [OF assms(3,4) absent]
  show ?thesis by blast
next
  case (found k)
  from memmem_found [OF assms(1,2) found] memmem_found [OF assms(3,4) found]
  show ?thesis by blast
qed

text \<open>
  The machines \<open>demo\<close> and \<open>demo2\<close> differ in store and in log; both calls return the
  address \<open>0x1001\<close> after the comparisons at the offsets 0 and 1.
\<close>

theorem memmem_deterministic_witness:
  "view demo 0x1000 5 = Some [120, 97, 98, 97, 98] \<and> view demo 0x2000 2 = Some [97, 98]
   \<and> view demo2 0x1000 5 = Some [120, 97, 98, 97, 98] \<and> view demo2 0x2000 2 = Some [97, 98]
   \<and> heap demo2 \<noteq> heap demo \<and> calls demo2 \<noteq> calls demo
   \<and> memmem demo 0x1000 5 0x2000 2 =
         Some (Done 0x1001, demo\<lparr>calls := [(0x1000, 0x2000, 2), (0x1001, 0x2000, 2)]\<rparr>)
   \<and> memmem demo2 0x1000 5 0x2000 2 =
         Some (Done 0x1001,
               demo2\<lparr>calls := [(0x1000, 0x2000, 2), (0x1000, 0x2000, 2), (0x1001, 0x2000, 2)]\<rparr>)
   \<and> (\<exists>r cs. memmem demo 0x1000 5 0x2000 2 = Some (Done r, demo\<lparr>calls := calls demo @ cs\<rparr>)
           \<and> memmem demo2 0x1000 5 0x2000 2 = Some (Done r, demo2\<lparr>calls := calls demo2 @ cs\<rparr>))"
proof -
  have "heap demo2 0x3000 \<noteq> heap demo 0x3000" by (simp add: demo2_def demo_def)
  then have "heap demo2 \<noteq> heap demo" by metis
  moreover have "calls demo2 \<noteq> calls demo" by (simp add: demo2_def demo_def)
  ultimately show ?thesis
    using memmem_deterministic [OF demo_haystack demo_needle demo2_haystack demo2_needle]
      demo_haystack demo_needle demo2_haystack demo2_needle demo_run demo2_run
    by blast
qed

text \<open>
  C7. Every call returns, and the machine it leaves has the store it found, so both
  views hold the bytes they held, and everything else in the caller's state (the
  extension of the record) is as it was. Only the log of comparisons, which is not
  memory of the program, has grown.
\<close>

theorem memmem_no_mutation:
  "\<exists>r m'. memmem m haystack haystack_len needle needle_len = Some (r, m')
     \<and> heap m' = heap m \<and> machine.more m' = machine.more m
     \<and> view m' haystack haystack_len = view m haystack haystack_len
     \<and> view m' needle needle_len = view m needle needle_len"
proof -
  from memmem_total [of m haystack haystack_len needle needle_len] obtain r cs where
    "memmem m haystack haystack_len needle needle_len = Some (r, m\<lparr>calls := calls m @ cs\<rparr>)"
    by blast
  then show ?thesis by (simp add: view_def)
qed

text \<open>
  C8. Let the haystack view hold the bytes \<open>H\<close> and the needle view the bytes \<open>N\<close>, of any
  lengths, zero included. Then \<^verbatim>\<open>memmem\<close> runs to completion: it returns a pointer (it
  neither stays in the loop, which would be \<open>None\<close>, nor faults), and the loop body ran at
  most \<^verbatim>\<open>haystack_len - needle_len + 1\<close> times, the difference taken in the integers and a
  negative bound meaning no iteration. Each iteration makes one comparison, so the
  iterations are the new entries of the log.
\<close>

theorem memmem_terminates:
  assumes "view m haystack haystack_len = Some H" and "view m needle needle_len = Some N"
  shows "\<exists>r m'. memmem m haystack haystack_len needle needle_len = Some (Done r, m')
           \<and> int (length (calls m'))
               \<le> int (length (calls m)) + max 0 (uint haystack_len - uint needle_len + 1)"
proof -
  from memmem_total [of m haystack haystack_len needle needle_len] obtain x cs where
    run: "memmem m haystack haystack_len needle needle_len = Some (x, m\<lparr>calls := calls m @ cs\<rparr>)"
    and len: "length cs \<le> (if needle_len = 0 \<or> haystack_len < needle_len then 0
                            else unat haystack_len - unat needle_len + 1)"
    by blast
  from memmem_done [OF assms] run obtain r where x: "x = Done r" by auto
  have "int (length cs) \<le> max 0 (uint haystack_len - uint needle_len + 1)"
  proof (cases "needle_len = 0 \<or> haystack_len < needle_len")
    case True
    with len show ?thesis by simp
  next
    case False
    then have "needle_len \<le> haystack_len" by (simp add: not_less)
    then have "unat needle_len \<le> unat haystack_len" by (simp add: word_le_nat_alt)
    moreover from len False have "length cs \<le> unat haystack_len - unat needle_len + 1" by simp
    moreover have "uint haystack_len = int (unat haystack_len)"
      and "uint needle_len = int (unat needle_len)" by (rule uint_nat)+
    ultimately show ?thesis by arith
  qed
  with run x show ?thesis by simp
qed

text \<open>
  The call on \<^verbatim>\<open>"xabab"\<close> and \<^verbatim>\<open>"ab"\<close> returns the address \<open>0x1001\<close> after two iterations, of
  at most \<open>5 - 2 + 1 = 4\<close>.
\<close>

theorem memmem_terminates_witness:
  "view demo 0x1000 5 = Some [120, 97, 98, 97, 98] \<and> view demo 0x2000 2 = Some [97, 98]
   \<and> memmem demo 0x1000 5 0x2000 2 =
         Some (Done 0x1001, demo\<lparr>calls := [(0x1000, 0x2000, 2), (0x1001, 0x2000, 2)]\<rparr>)
   \<and> max 0 (uint (5 :: 64 word) - uint (2 :: 64 word) + 1) = 4
   \<and> (\<exists>r m'. memmem demo 0x1000 5 0x2000 2 = Some (Done r, m')
          \<and> int (length (calls m'))
              \<le> int (length (calls demo)) + max 0 (uint (5 :: 64 word) - uint (2 :: 64 word) + 1))"
proof -
  have "max 0 (uint (5 :: 64 word) - uint (2 :: 64 word) + 1) = 4" by simp
  with memmem_terminates [OF demo_haystack demo_needle] demo_haystack demo_needle demo_run
  show ?thesis by blast
qed

text \<open>
  C9. Let the lengths be accurate: the haystack view holds \<open>H\<close> and the needle view holds
  \<open>N\<close>. Then \<^verbatim>\<open>memmem\<close> does not fault. If it makes any comparison at all, both guards were
  passed, so \<^verbatim>\<open>haystack_len - needle_len\<close> did not wrap. Every comparison it makes is
  \<^verbatim>\<open>memcmp(h + i, n, needle_len)\<close> for an offset \<open>i\<close> with \<open>i + needle_len \<le> haystack_len\<close>: it
  reads the \<open>needle_len\<close> bytes of the haystack from \<open>i\<close> on, and the \<open>needle_len\<close> bytes of
  the needle, all of them readable.
\<close>

theorem memmem_reads_in_bounds:
  assumes "view m h haystack_len = Some H" and "view m n needle_len = Some N"
  shows "\<exists>r cs. memmem m h haystack_len n needle_len = Some (Done r, m\<lparr>calls := calls m @ cs\<rparr>)
           \<and> (cs \<noteq> [] \<longrightarrow> needle_len \<noteq> 0 \<and> needle_len \<le> haystack_len
                 \<and> uint (haystack_len - needle_len) = uint haystack_len - uint needle_len)
           \<and> (\<forall>c \<in> set cs. \<exists>i. c = (h + of_nat i, n, needle_len)
                 \<and> i + unat needle_len \<le> unat haystack_len
                 \<and> bytes_at (heap m) (h + of_nat i) (unat needle_len)
                     = Some (take (unat needle_len) (drop i H))
                 \<and> bytes_at (heap m) n (unat needle_len) = Some N)"
proof -
  have lH: "length H = unat haystack_len" and lN: "length N = unat needle_len"
    using assms by (auto dest: view_length)
  have guards: "needle_len \<noteq> 0 \<and> needle_len \<le> haystack_len
                 \<and> uint (haystack_len - needle_len) = uint haystack_len - uint needle_len"
    if "N \<noteq> []" and "length N \<le> length H"
  proof -
    have "needle_len \<noteq> 0" using that(1) view_empty_iff [OF assms(2)] by simp
    moreover have le: "needle_len \<le> haystack_len" using that(2) by (simp add: word_le_nat_alt lH lN)
    moreover have "uint (haystack_len - needle_len) = uint haystack_len - uint needle_len"
      using le by (simp add: word_le_def uint_sub_lem [symmetric])
    ultimately show ?thesis by simp
  qed
  have upto: "\<forall>c \<in> set (map (probe h n needle_len) [0..<Suc k]).
               \<exists>i. c = (h + of_nat i, n, needle_len)
                 \<and> i + unat needle_len \<le> unat haystack_len
                 \<and> bytes_at (heap m) (h + of_nat i) (unat needle_len)
                     = Some (take (unat needle_len) (drop i H))
                 \<and> bytes_at (heap m) n (unat needle_len) = Some N"
    if "k + length N \<le> length H" for k
  proof
    fix c assume "c \<in> set (map (probe h n needle_len) [0..<Suc k])"
    then obtain i where i: "i < Suc k" and c: "c = probe h n needle_len i"
      by (auto simp del: upt_Suc)
    from i that have "i + length N \<le> length H" by simp
    from probe_in_bounds [OF assms this] c show "\<exists>i. c = (h + of_nat i, n, needle_len)
                 \<and> i + unat needle_len \<le> unat haystack_len
                 \<and> bytes_at (heap m) (h + of_nat i) (unat needle_len)
                     = Some (take (unat needle_len) (drop i H))
                 \<and> bytes_at (heap m) n (unat needle_len) = Some N"
      unfolding probe_def by blast
  qed
  show ?thesis
  proof (cases rule: occurrence_cases [where H = H and N = N])
    case empty
    then have "needle_len = 0" using view_empty_iff [OF assms(2)] by simp
    then have "memmem m h haystack_len n needle_len = Some (Done h, m\<lparr>calls := calls m @ []\<rparr>)"
      by (simp add: memmem_empty)
    then show ?thesis by (intro exI [of _ "[]"] exI [of _ h]) simp
  next
    case absent
    then have ne: "N \<noteq> []" by (simp add: no_occurrence_def)
    show ?thesis
    proof (cases "length H < length N")
      case True
      with memmem_absent [OF assms absent]
      have "memmem m h haystack_len n needle_len = Some (Done NULL, m\<lparr>calls := calls m @ []\<rparr>)"
        by simp
      then show ?thesis by (intro exI [of _ "[]"] exI [of _ NULL]) simp
    next
      case False
      then have le: "length N \<le> length H" by simp
      then have "length H - length N + length N \<le> length H" by simp
      from upto [OF this] guards [OF ne le] memmem_absent [OF assms absent] False
      show ?thesis
        by (intro exI [of _ "map (probe h n needle_len) [0..<Suc (length H - length N)]"] exI [of _ NULL])
           (simp del: upt_Suc)
    qed
  next
    case (found k)
    from found(2) have k: "k + length N \<le> length H" by (simp add: occurs_at_def)
    then have le: "length N \<le> length H" by simp
    from upto [OF k] guards [OF found(1) le] memmem_found [OF assms found]
    show ?thesis
      by (intro exI [of _ "map (probe h n needle_len) [0..<Suc k]"] exI [of _ "h + of_nat k"])
         (simp del: upt_Suc)
  qed
qed

text \<open>
  The call on \<^verbatim>\<open>"xabab"\<close> and \<^verbatim>\<open>"ab"\<close>: comparisons at the offsets 0 and 1, and
  \<open>1 + 2 \<le> 5\<close>.
\<close>

theorem memmem_reads_in_bounds_witness:
  "view demo 0x1000 5 = Some [120, 97, 98, 97, 98] \<and> view demo 0x2000 2 = Some [97, 98]
   \<and> memmem demo 0x1000 5 0x2000 2 =
         Some (Done 0x1001, demo\<lparr>calls := [(0x1000, 0x2000, 2), (0x1001, 0x2000, 2)]\<rparr>)
   \<and> (\<exists>r cs. memmem demo 0x1000 5 0x2000 2 = Some (Done r, demo\<lparr>calls := calls demo @ cs\<rparr>)
           \<and> (cs \<noteq> [] \<longrightarrow> (2 :: 64 word) \<noteq> 0 \<and> (2 :: 64 word) \<le> 5
                 \<and> uint (5 - 2 :: 64 word) = uint (5 :: 64 word) - uint (2 :: 64 word))
           \<and> (\<forall>c \<in> set cs. \<exists>i. c = (0x1000 + of_nat i, 0x2000, 2)
                 \<and> i + unat (2 :: 64 word) \<le> unat (5 :: 64 word)
                 \<and> bytes_at (heap demo) (0x1000 + of_nat i) (unat (2 :: 64 word))
                     = Some (take (unat (2 :: 64 word)) (drop i [120, 97, 98, 97, 98]))
                 \<and> bytes_at (heap demo) 0x2000 (unat (2 :: 64 word)) = Some [97, 98]))"
  using memmem_reads_in_bounds [OF demo_haystack demo_needle] demo_haystack demo_needle demo_run
  by blast

text \<open>
  C10. With a null haystack pointer, \<^verbatim>\<open>haystack_len == 0\<close> and \<^verbatim>\<open>needle_len == 0\<close>, \<^verbatim>\<open>memmem\<close>
  returns the haystack pointer, which is \<^verbatim>\<open>NULL\<close>: the same answer as for a needle of one
  byte, which cannot occur in the empty haystack.
\<close>

theorem memmem_null_haystack_empty_needle:
  "memmem m NULL 0 needle 0 = Some (Done NULL, m)
   \<and> memmem m NULL 0 needle 0 = memmem m NULL 0 needle 1"
  by (simp add: memmem_def)

end
